theory Spec2Isabelle
  imports Main "HOL-Library.Multiset"
begin

section \<open>EST SMTP test server: session, address extraction, relay and resolver\<close>

text \<open>
  A shallow embedding of the class \<open>SMTPTestServer\<close> of \<open>est.py\<close>: the methods
  \<open>_handle_client\<close>, \<open>_extract_email\<close>, \<open>_process_email\<close>, \<open>_relay_email\<close> and
  \<open>_get_mx_servers\<close>.

  Text is a \<open>string\<close>, one \<open>char\<close> per code point, for the code points below 256;
  \<open>upper\<close> maps the letters a-z only, which is enough to decide the keyword tests of
  the session as Python decides them on such text. The network (DNS, outbound SMTP sessions, the wall clock) is not
  code of the program: it is an environment of four operations over an abstract world
  state, so that the same question asked twice may be answered differently.
\<close>

subsection \<open>The string operations of Python that the server uses\<close>

definition LF :: char where
  "LF = CHR 0x0A"

definition CR :: char where
  "CR = CHR 0x0D"

text \<open>\<open>str.isspace\<close> on one character: the code points 9-13, 28-32, 133 and 160.\<close>

definition isspace :: "char \<Rightarrow> bool" where
  "isspace c = (let n = (of_char c :: nat)
                in (9 \<le> n \<and> n \<le> 13) \<or> (28 \<le> n \<and> n \<le> 32) \<or> n = 133 \<or> n = 160)"

text \<open>\<open>s.strip(chars)\<close> for a predicate on characters; \<open>s.strip()\<close> is \<open>strip\<close>.\<close>

definition strip_chars :: "(char \<Rightarrow> bool) \<Rightarrow> string \<Rightarrow> string" where
  "strip_chars p s = rev (dropWhile p (rev (dropWhile p s)))"

definition strip :: "string \<Rightarrow> string" where
  "strip s = strip_chars isspace s"

text \<open>\<open>s.rstrip('.')\<close>: every trailing dot goes.\<close>

definition rstrip_dot :: "string \<Rightarrow> string" where
  "rstrip_dot s = rev (dropWhile (\<lambda>c. c = CHR ''.'') (rev s))"

text \<open>
  \<open>s.split()\<close>: the maximal runs of non-blank characters, in order. \<open>cur\<close> is the
  token being read.
\<close>

fun split_acc :: "string \<Rightarrow> string \<Rightarrow> string list" where
  "split_acc cur [] = (if cur = [] then [] else [cur])"
| "split_acc cur (c # cs) =
     (if isspace c then (if cur = [] then split_acc [] cs else cur # split_acc [] cs)
      else split_acc (cur @ [c]) cs)"

definition split_ws :: "string \<Rightarrow> string list" where
  "split_ws s = split_acc [] s"

text \<open>\<open>s.split(sep)\<close> for a one-character separator: never empty, empty fields kept.\<close>

fun split_on :: "char \<Rightarrow> string \<Rightarrow> string list" where
  "split_on sep [] = [[]]"
| "split_on sep (c # cs) =
     (if c = sep then [] # split_on sep cs
      else (case split_on sep cs of
              [] \<Rightarrow> [[c]]
            | p # ps \<Rightarrow> (c # p) # ps))"

text \<open>\<open>s.upper()\<close>, on the letters a-z.\<close>

definition upper_char :: "char \<Rightarrow> char" where
  "upper_char c = (let n = (of_char c :: nat)
                   in if 97 \<le> n \<and> n \<le> 122 then char_of (n - 32) else c)"

definition upper :: "string \<Rightarrow> string" where
  "upper s = map upper_char s"

text \<open>\<open>s.startswith(p)\<close> and \<open>s.endswith(p)\<close>.\<close>

definition startswith :: "string \<Rightarrow> string \<Rightarrow> bool" where
  "startswith s p = (take (length p) s = p)"

definition endswith :: "string \<Rightarrow> string \<Rightarrow> bool" where
  "endswith s p = (length p \<le> length s \<and> drop (length s - length p) s = p)"

subsection \<open>\<open>_extract_email\<close>\<close>

text \<open>
  \<open>re.search(r'<(.+?)>', smtp_line)\<close>. The search tries each position from the left.
  At a \<open><\<close>, the group \<open>.+?\<close> takes one character that is not a line feed, then as
  few more as possible up to a \<open>>\<close>; meeting a line feed or the end of the text
  first, the attempt at this position fails and the search moves one position right.
  \<open>scan_group acc s\<close> has read \<open>acc\<close> into the group and looks at \<open>s\<close>.
\<close>

fun scan_group :: "string \<Rightarrow> string \<Rightarrow> string option" where
  "scan_group acc [] = None"
| "scan_group acc (c # cs) =
     (if c = CHR ''>'' then Some acc
      else if c = LF then None
      else scan_group (acc @ [c]) cs)"

definition match_here :: "string \<Rightarrow> string option" where
  "match_here s = (case s of
                     [] \<Rightarrow> None
                   | c # cs \<Rightarrow> if c = LF then None else scan_group [c] cs)"

fun re_search :: "string \<Rightarrow> string option" where
  "re_search [] = None"
| "re_search (c # cs) =
     (if c = CHR ''<''
      then (case match_here cs of Some g \<Rightarrow> Some g | None \<Rightarrow> re_search cs)
      else re_search cs)"

definition is_angle :: "char \<Rightarrow> bool" where
  "is_angle c = (c = CHR ''<'' \<or> c = CHR ''>'')"

definition extract_email :: "string \<Rightarrow> string" where
  "extract_email smtp_line =
     (case re_search smtp_line of
        Some g \<Rightarrow> g
      | None \<Rightarrow>
          (let parts = split_ws smtp_line
           in if length parts > 1 then strip_chars is_angle (last parts) else []))"

subsection \<open>The environment\<close>

text \<open>
  What the server asks of the outside, over a world state \<open>'w\<close>:
  \<^item> \<open>dns_resolve_mx w domain\<close>: the block \<open>import dns.resolver;
    dns.resolver.resolve(domain, 'MX')\<close>. \<open>None\<close> is any exception (the library is
    missing, the lookup fails, there is no record); \<open>Some\<close> holds the records in the
    order of the answer, each as \<open>(preference, str(exchange))\<close>;
  \<^item> \<open>gethostbyname w host\<close>: whether \<open>socket.gethostbyname(host)\<close> returns;
  \<^item> \<open>smtp_deliver w host sender rcpt payload\<close>: whether the block that opens
    \<open>smtplib.SMTP(host, 25, timeout=15)\<close>, sends the mail and quits runs without an
    exception;
  \<^item> \<open>now_iso w\<close>: \<open>datetime.now().isoformat()\<close>.
\<close>

record 'w env =
  dns_resolve_mx :: "'w \<Rightarrow> string \<Rightarrow> (nat \<times> string) list option \<times> 'w"
  gethostbyname :: "'w \<Rightarrow> string \<Rightarrow> bool \<times> 'w"
  smtp_deliver :: "'w \<Rightarrow> string \<Rightarrow> string \<Rightarrow> string \<Rightarrow> string \<Rightarrow> bool \<times> 'w"
  now_iso :: "'w \<Rightarrow> string"

subsection \<open>\<open>_get_mx_servers\<close>\<close>

definition fallbacks :: "string \<Rightarrow> string list" where
  "fallbacks domain = [''mail.'' @ domain, ''mx.'' @ domain, ''mx1.'' @ domain]"

text \<open>The loop over \<open>fallbacks\<close>; \<open>working\<close> is \<open>working_fallbacks\<close>.\<close>

fun probe_fallbacks :: "'w env \<Rightarrow> 'w \<Rightarrow> string list \<Rightarrow> string list \<Rightarrow> string list \<times> 'w" where
  "probe_fallbacks E w working [] = (working, w)"
| "probe_fallbacks E w working (mx # rest) =
     (case gethostbyname E w mx of
        (True, w') \<Rightarrow> probe_fallbacks E w' (working @ [mx]) rest
      | (False, w') \<Rightarrow> probe_fallbacks E w' working rest)"

text \<open>\<open>sorted(mx_records, key=lambda x: x.preference)\<close> is stable, as \<open>sort_key\<close> is.\<close>

definition get_mx_servers :: "'w env \<Rightarrow> 'w \<Rightarrow> string \<Rightarrow> string list \<times> 'w" where
  "get_mx_servers E w domain =
     (case dns_resolve_mx E w domain of
        (Some mx_records, w') \<Rightarrow>
          (map (\<lambda>mx. rstrip_dot (snd mx)) (sort_key fst mx_records), w')
      | (None, w') \<Rightarrow> probe_fallbacks E w' [] (fallbacks domain))"

subsection \<open>\<open>_relay_email\<close>\<close>

datatype py_error = IndexError

text \<open>\<open>rcpt_to.split('@')[1]\<close>.\<close>

definition rcpt_domain :: "string \<Rightarrow> py_error + string" where
  "rcpt_domain rcpt =
     (let parts = split_on (CHR ''@'') rcpt
      in if 1 < length parts then Inr (parts ! 1) else Inl IndexError)"

definition full_email :: "string \<Rightarrow> string \<Rightarrow> string \<Rightarrow> string" where
  "full_email sender rcpt email_data =
     ''From: '' @ sender @ [CR, LF] @ ''To: '' @ rcpt @ [CR, LF] @ email_data"

text \<open>
  The loop over \<open>mx_servers\<close>. Beside the boolean that the method returns, the model
  returns the outbound sessions the loop opened, oldest first, each with the host and
  whether it ran without an exception.
\<close>

type_synonym attempt = "string \<times> bool"

fun try_servers ::
  "'w env \<Rightarrow> 'w \<Rightarrow> string \<Rightarrow> string \<Rightarrow> string \<Rightarrow> string list \<Rightarrow> bool \<times> attempt list \<times> 'w" where
  "try_servers E w sender rcpt email_data [] = (False, [], w)"
| "try_servers E w sender rcpt email_data (mx_server # rest) =
     (case smtp_deliver E w mx_server sender rcpt (full_email sender rcpt email_data) of
        (True, w') \<Rightarrow> (True, [(mx_server, True)], w')
      | (False, w') \<Rightarrow>
          (case try_servers E w' sender rcpt email_data rest of
             (ok, tr, w'') \<Rightarrow> (ok, (mx_server, False) # tr, w'')))"

text \<open>The body of the outer \<open>try\<close>: an exception is \<open>Inl\<close>.\<close>

definition relay_body ::
  "'w env \<Rightarrow> 'w \<Rightarrow> string \<Rightarrow> string \<Rightarrow> string \<Rightarrow> py_error + (bool \<times> attempt list \<times> 'w)" where
  "relay_body E w sender rcpt email_data =
     (case rcpt_domain rcpt of
        Inl e \<Rightarrow> Inl e
      | Inr domain \<Rightarrow>
          (case get_mx_servers E w domain of
             (mx_servers, w') \<Rightarrow> Inr (try_servers E w' sender rcpt email_data mx_servers)))"

text \<open>The outer \<open>except Exception\<close> turns the exception into \<open>False\<close>.\<close>

definition relay_email ::
  "'w env \<Rightarrow> 'w \<Rightarrow> string \<Rightarrow> string \<Rightarrow> string \<Rightarrow> bool \<times> attempt list \<times> 'w" where
  "relay_email E w sender rcpt email_data =
     (case relay_body E w sender rcpt email_data of
        Inl e \<Rightarrow> (False, [], w)
      | Inr r \<Rightarrow> r)"

subsection \<open>\<open>_process_email\<close>\<close>

text \<open>The dictionary \<open>details\<close> of this call site has four fixed keys.\<close>

record details =
  client_id :: string
  total_targets :: nat
  successful_deliveries :: nat
  email_size :: nat

record test_result =
  timestamp :: string
  test_type :: string
  scenario :: string
  target :: string
  from_email :: string
  success :: bool
  details :: details

text \<open>\<open>sep.join(xs)\<close>.\<close>

fun join :: "string \<Rightarrow> string list \<Rightarrow> string" where
  "join sep [] = []"
| "join sep [x] = x"
| "join sep (x # y # ys) = x @ sep @ join sep (y # ys)"

text \<open>
  The state one connection works on: the world outside, the records handed to
  \<open>_log_test_result\<close> (oldest first), the counter \<open>self.emails_processed\<close>, the
  envelope \<open>mail_from\<close> and \<open>rcpt_to\<close> of \<open>_handle_client\<close>, and the replies sent on
  the client socket (oldest first).
\<close>

record 'w state =
  world :: 'w
  results :: "test_result list"
  emails_processed :: nat
  mail_from :: string
  rcpt_to :: "string list"
  sent :: "string list"

text \<open>
  The loop \<open>for rcpt in rcpt_to\<close>. Beside the count, the model returns one entry for
  each call of \<open>_relay_email\<close>, oldest first: the recipient, what the call returned and
  the outbound sessions it opened.
\<close>

type_synonym dispatch = "string \<times> bool \<times> attempt list"

fun dispatch_all ::
  "'w env \<Rightarrow> 'w \<Rightarrow> string \<Rightarrow> string \<Rightarrow> nat \<Rightarrow> string list \<Rightarrow> nat \<times> dispatch list \<times> 'w" where
  "dispatch_all E w sender email_data success_count [] = (success_count, [], w)"
| "dispatch_all E w sender email_data success_count (rcpt # rest) =
     (case relay_email E w sender rcpt email_data of
        (ok, tr, w') \<Rightarrow>
          (case dispatch_all E w' sender email_data
                  (if ok then success_count + 1 else success_count) rest of
             (n, ds, w'') \<Rightarrow> (n, (rcpt, ok, tr) # ds, w'')))"

definition process_email ::
  "'w env \<Rightarrow> 'w state \<Rightarrow> string \<Rightarrow> string list \<Rightarrow> string \<Rightarrow> string
     \<Rightarrow> bool \<times> dispatch list \<times> 'w state" where
  "process_email E st sender rcpts email_data cid =
     (case dispatch_all E (world st) sender email_data 0 rcpts of
        (success_count, ds, w') \<Rightarrow>
          (let result = \<lparr> timestamp = now_iso E w',
                          test_type = ''smtp_relay'',
                          scenario = ''server_relay'',
                          target = join '', '' rcpts,
                          from_email = sender,
                          success = (success_count > 0),
                          details = \<lparr> client_id = cid,
                                      total_targets = length rcpts,
                                      successful_deliveries = success_count,
                                      email_size = length email_data \<rparr> \<rparr>
           in (success_count > 0, ds,
               st\<lparr>world := w', results := results st @ [result]\<rparr>)))"

subsection \<open>\<open>_handle_client\<close>\<close>

definition crlf :: string where
  "crlf = [CR, LF]"

definition terminator :: string where
  "terminator = [CR, LF, CHR ''.'', CR, LF]"

text \<open>
  The input of a connection is the list of the texts that the calls of
  \<open>client_sock.recv(4096).decode('utf-8', errors='ignore')\<close> return, in order; after
  the last one the peer has closed and every further call returns the empty text.

  The loop that receives the message: \<open>email_data\<close> is the text accumulated so far.
  With no input left the loop receives empty texts for ever: \<open>None\<close>.
\<close>

fun recv_body :: "string \<Rightarrow> string list \<Rightarrow> (string \<times> string list) option" where
  "recv_body email_data [] = None"
| "recv_body email_data (line # rest) =
     (if endswith line terminator then Some (email_data @ line, rest)
      else recv_body (email_data @ line) rest)"

definition send :: "string \<Rightarrow> 'w state \<Rightarrow> 'w state" where
  "send reply st = st\<lparr>sent := sent st @ [reply]\<rparr>"

text \<open>
  How one pass of the loop \<open>while self.running\<close> ends: the loop goes on, the loop is
  left (and the socket closed), or the pass never ends.
\<close>

datatype flow = Continue | Break | Hangs

text \<open>
  The chain of tests on \<open>cmd = data.upper()\<close>, for a \<open>data\<close> that is not empty.
  \<open>rest\<close> is the input after \<open>data\<close>; \<open>addr0\<close> is \<open>addr[0]\<close>.
\<close>

definition handle_command ::
  "'w env \<Rightarrow> string \<Rightarrow> string \<Rightarrow> string \<Rightarrow> string list \<Rightarrow> 'w state
     \<Rightarrow> 'w state \<times> string list \<times> flow" where
  "handle_command E addr0 cid data rest st =
     (let cmd = upper data in
      if startswith cmd ''EHLO'' \<or> startswith cmd ''HELO'' then
        (send (''250-EST-SMTP Hello '' @ addr0 @ crlf @ ''250 HELP'' @ crlf) st, rest, Continue)
      else if startswith cmd ''MAIL FROM:'' then
        (send (''250 OK'' @ crlf) (st\<lparr>mail_from := extract_email data\<rparr>), rest, Continue)
      else if startswith cmd ''RCPT TO:'' then
        (send (''250 OK'' @ crlf) (st\<lparr>rcpt_to := rcpt_to st @ [extract_email data]\<rparr>),
         rest, Continue)
      else if cmd = ''DATA'' then
        (let st1 = send (''354 End data with <CR><LF>.<CR><LF>'' @ crlf) st in
         case recv_body [] rest of
           None \<Rightarrow> (st1, [], Hangs)
         | Some (email_data, rest') \<Rightarrow>
             (case process_email E st1 (mail_from st1) (rcpt_to st1)
                     (take (length email_data - 5) email_data) cid of
                (ok, ds, st2) \<Rightarrow>
                  (let st3 = st2\<lparr>emails_processed := emails_processed st2 + 1\<rparr>;
                       st4 = (if ok then send (''250 OK Message queued for delivery'' @ crlf) st3
                              else send (''550 Message delivery failed'' @ crlf) st3)
                   in (st4\<lparr>mail_from := [], rcpt_to := []\<rparr>, rest', Continue))))
      else if cmd = ''QUIT'' then
        (send (''221 EST-SMTP closing connection'' @ crlf) st, rest, Break)
      else if startswith cmd ''RSET'' then
        (send (''250 OK'' @ crlf) (st\<lparr>mail_from := [], rcpt_to := []\<rparr>), rest, Continue)
      else
        (send (''500 Command not recognized'' @ crlf) st, rest, Continue))"

text \<open>
  One pass of the loop on the received text \<open>raw\<close>: \<open>data = raw.strip()\<close>, and an
  empty \<open>data\<close> leaves the loop.
\<close>

definition session_step ::
  "'w env \<Rightarrow> string \<Rightarrow> string \<Rightarrow> string \<Rightarrow> string list \<Rightarrow> 'w state
     \<Rightarrow> 'w state \<times> string list \<times> flow" where
  "session_step E addr0 cid raw rest st =
     (let data = strip raw
      in if data = [] then (st, rest, Break) else handle_command E addr0 cid data rest st)"

subsection \<open>A small world for concrete runs\<close>

text \<open>
  The world counts the questions asked so far. The domain \<open>x\<close> has the two exchange
  records of the resolver example, the domain \<open>t\<close> has three, written with the
  trailing dot of an absolute name; no other lookup succeeds.
  Of the guessed names only \<open>mx.y\<close> resolves. Every host but \<open>h1\<close> and \<open>mx.y\<close>
  accepts mail.
\<close>

definition demo_env :: "nat env" where
  "demo_env =
     \<lparr> dns_resolve_mx = (\<lambda>w d.
          (if d = ''x'' then Some [(10, ''mx1.x''), (5, ''mx0.x'')]
           else if d = ''t'' then Some [(1, ''h1.''), (2, ''h2.''), (3, ''h3.'')]
           else None, Suc w)),
       gethostbyname = (\<lambda>w h. (h = ''mx.y'', Suc w)),
       smtp_deliver = (\<lambda>w h sender rcpt payload. (h \<noteq> ''h1'' \<and> h \<noteq> ''mx.y'', Suc w)),
       now_iso = (\<lambda>w. ''2025-01-01T00:00:00'') \<rparr>"

definition demo_state :: "nat state" where
  "demo_state =
     \<lparr> world = 0, results = [], emails_processed = 0,
       mail_from = ''a@s'', rcpt_to = [''bob@t'', ''nobody''], sent = [] \<rparr>"

section \<open>Properties\<close>

subsection \<open>Recipients without a domain\<close>

lemma split_on_no_sep: "sep \<notin> set s \<Longrightarrow> split_on sep s = [s]"
  by (induction s) auto

lemma rcpt_domain_no_at: "CHR ''@'' \<notin> set rcpt \<Longrightarrow> rcpt_domain rcpt = Inl IndexError"
  by (simp add: rcpt_domain_def split_on_no_sep)

text \<open>
  C10. For a recipient with no \<open>@\<close>, the body of \<open>_relay_email\<close> raises IndexError at
  the domain extraction, the handler around it returns False, no outbound session is
  opened and the world is untouched; the loop of \<open>_process_email\<close> records the failed
  dispatch and goes on with the recipients that follow.
\<close>

theorem relay_email_no_at:
  assumes "CHR ''@'' \<notin> set rcpt"
  shows "relay_body E w sender rcpt email_data = Inl IndexError
       \<and> relay_email E w sender rcpt email_data = (False, [], w)
       \<and> dispatch_all E w sender email_data n (rcpt # rest) =
           (case dispatch_all E w sender email_data n rest of
              (m, ds, w') \<Rightarrow> (m, (rcpt, False, []) # ds, w'))"
  using assms by (simp add: relay_email_def relay_body_def rcpt_domain_no_at)

theorem relay_email_no_at_witness:
  "CHR ''@'' \<notin> set ''nobody''
   \<and> relay_body demo_env 0 ''a@s'' ''nobody'' ''hi'' = Inl IndexError
   \<and> relay_email demo_env 0 ''a@s'' ''nobody'' ''hi'' = (False, [], 0)"
proof -
  have h: "CHR ''@'' \<notin> set ''nobody''" by simp
  show ?thesis
    using h relay_email_no_at [OF h, of demo_env 0 "''a@s''" "''hi''" 0 "[]"] by simp
qed

subsection \<open>The relay loop stops at the first success\<close>

lemma try_servers_trace:
  "try_servers E w sender rcpt email_data hosts = (ok, tr, w') \<Longrightarrow>
     (ok \<longrightarrow> (\<exists>k<length hosts. tr = map (\<lambda>h. (h, False)) (take k hosts) @ [(hosts ! k, True)]))
   \<and> (\<not> ok \<longrightarrow> tr = map (\<lambda>h. (h, False)) hosts)"
proof (induction hosts arbitrary: w ok tr w')
  case Nil
  then show ?case by simp
next
  case (Cons h hs)
  obtain b w1 where d: "smtp_deliver E w h sender rcpt (full_email sender rcpt email_data) = (b, w1)"
    by (cases "smtp_deliver E w h sender rcpt (full_email sender rcpt email_data)")
  show ?case
  proof (cases b)
    case True
    with d Cons.prems have "ok" "tr = [(h, True)]" by auto
    then show ?thesis by (intro conjI impI exI[of _ 0]) auto
  next
    case False
    obtain ok2 tr2 w2 where r: "try_servers E w1 sender rcpt email_data hs = (ok2, tr2, w2)"
      by (cases "try_servers E w1 sender rcpt email_data hs")
    with d False Cons.prems have e: "ok = ok2" "tr = (h, False) # tr2" by auto
    from Cons.IH[OF r] have ih:
      "ok2 \<longrightarrow> (\<exists>k<length hs. tr2 = map (\<lambda>h. (h, False)) (take k hs) @ [(hs ! k, True)])"
      "\<not> ok2 \<longrightarrow> tr2 = map (\<lambda>h. (h, False)) hs" by auto
    show ?thesis
    proof (intro conjI impI)
      assume ok
      with e ih obtain k where
        "k < length hs" "tr2 = map (\<lambda>h. (h, False)) (take k hs) @ [(hs ! k, True)]"
        by auto
      with e show "\<exists>k<length (h # hs).
          tr = map (\<lambda>h. (h, False)) (take k (h # hs)) @ [((h # hs) ! k, True)]"
        by (intro exI[of _ "Suc k"]) auto
    next
      assume "\<not> ok"
      with e ih show "tr = map (\<lambda>h. (h, False)) (h # hs)" by auto
    qed
  qed
qed



subsection \<open>One dispatch for each recipient\<close>

lemma relay_email_ok_iff:
  assumes "relay_email E w sender rcpt email_data = (ok, tr, w')"
  shows "ok \<longleftrightarrow> (\<exists>a\<in>set tr. snd a)"
proof (cases "rcpt_domain rcpt")
  case (Inl e)
  with assms show ?thesis by (auto simp: relay_email_def relay_body_def)
next
  case (Inr domain)
  obtain hosts w1 where g: "get_mx_servers E w domain = (hosts, w1)"
    by (cases "get_mx_servers E w domain")
  with Inr assms have "try_servers E w1 sender rcpt email_data hosts = (ok, tr, w')"
    by (simp add: relay_email_def relay_body_def)
  from try_servers_trace[OF this] show ?thesis by (cases ok) auto
qed

lemma dispatch_all_trace:
  "dispatch_all E w sender email_data n rcpts = (m, ds, w') \<Longrightarrow>
     map fst ds = rcpts
   \<and> m = n + length (filter (\<lambda>d. fst (snd d)) ds)
   \<and> (\<exists>ws. length ws = Suc (length rcpts) \<and> ws ! 0 = w \<and> ws ! length rcpts = w'
        \<and> (\<forall>i<length rcpts.
              relay_email E (ws ! i) sender (rcpts ! i) email_data =
                (fst (snd (ds ! i)), snd (snd (ds ! i)), ws ! Suc i)))"
proof (induction rcpts arbitrary: w n m ds w')
  case Nil
  then show ?case by (auto intro: exI[of _ "[w]"])
next
  case (Cons r rs)
  obtain ok tr w1 where a: "relay_email E w sender r email_data = (ok, tr, w1)"
    by (cases "relay_email E w sender r email_data")
  obtain m2 ds2 w2 where b:
    "dispatch_all E w1 sender email_data (if ok then n + 1 else n) rs = (m2, ds2, w2)"
    by (cases "dispatch_all E w1 sender email_data (if ok then n + 1 else n) rs")
  from Cons.prems a b have e: "m = m2" "ds = (r, ok, tr) # ds2" "w' = w2" by auto
  from Cons.IH[OF b] obtain ws where ih:
    "map fst ds2 = rs" "m2 = (if ok then n + 1 else n) + length (filter (\<lambda>d. fst (snd d)) ds2)"
    "length ws = Suc (length rs)" "ws ! 0 = w1" "ws ! length rs = w2"
    "\<forall>i<length rs. relay_email E (ws ! i) sender (rs ! i) email_data =
                (fst (snd (ds2 ! i)), snd (snd (ds2 ! i)), ws ! Suc i)"
    by auto
  have "\<forall>i<length (r # rs). relay_email E ((w # ws) ! i) sender ((r # rs) ! i) email_data =
                (fst (snd (ds ! i)), snd (snd (ds ! i)), (w # ws) ! Suc i)"
  proof (intro allI impI)
    fix i assume "i < length (r # rs)"
    then show "relay_email E ((w # ws) ! i) sender ((r # rs) ! i) email_data =
                (fst (snd (ds ! i)), snd (snd (ds ! i)), (w # ws) ! Suc i)"
      using a e ih by (cases i) auto
  qed
  moreover have "length (w # ws) = Suc (length (r # rs))" "(w # ws) ! 0 = w"
    "(w # ws) ! length (r # rs) = w'" using ih e by auto
  ultimately have "\<exists>ws. length ws = Suc (length (r # rs)) \<and> ws ! 0 = w \<and> ws ! length (r # rs) = w'
        \<and> (\<forall>i<length (r # rs).
              relay_email E (ws ! i) sender ((r # rs) ! i) email_data =
                (fst (snd (ds ! i)), snd (snd (ds ! i)), ws ! Suc i))"
    by blast
  moreover have "map fst ds = r # rs" using e ih by simp
  moreover have "m = n + length (filter (\<lambda>d. fst (snd d)) ds)" using e ih by simp
  ultimately show ?case by blast
qed

lemma dispatch_all_attempts:
  "dispatch_all E w sender email_data n rcpts = (m, ds, w') \<Longrightarrow>
     \<forall>d\<in>set ds. fst (snd d) \<longleftrightarrow> (\<exists>a\<in>set (snd (snd d)). snd a)"
proof (induction rcpts arbitrary: w n m ds w')
  case Nil
  then show ?case by simp
next
  case (Cons r rs)
  obtain ok tr w1 where a: "relay_email E w sender r email_data = (ok, tr, w1)"
    by (cases "relay_email E w sender r email_data")
  obtain m2 ds2 w2 where b:
    "dispatch_all E w1 sender email_data (if ok then n + 1 else n) rs = (m2, ds2, w2)"
    by (cases "dispatch_all E w1 sender email_data (if ok then n + 1 else n) rs")
  from Cons.prems a b have e: "ds = (r, ok, tr) # ds2" by auto
  from relay_email_ok_iff[OF a] Cons.IH[OF b] e show ?case by simp
qed

text \<open>
  C3. \<open>_process_email\<close> calls \<open>_relay_email\<close> once for each recipient, in list
  order, each call starting in the world the call before it left, whatever the earlier
  calls returned. It returns True exactly when one of these calls returned True, and
  False exactly when every outbound session of every call failed.
\<close>

theorem process_email_at_least_one:
  assumes "process_email E st sender rcpts email_data cid = (ok, ds, st')"
  shows "map fst ds = rcpts
       \<and> (\<exists>ws. length ws = Suc (length rcpts) \<and> ws ! 0 = world st \<and> ws ! length rcpts = world st'
            \<and> (\<forall>i<length rcpts.
                  relay_email E (ws ! i) sender (rcpts ! i) email_data =
                    (fst (snd (ds ! i)), snd (snd (ds ! i)), ws ! Suc i)))
       \<and> (ok \<longleftrightarrow> (\<exists>d\<in>set ds. fst (snd d)))
       \<and> (\<not> ok \<longleftrightarrow> (\<forall>d\<in>set ds. \<forall>a\<in>set (snd (snd d)). \<not> snd a))"
proof -
  obtain m ds0 w' where d: "dispatch_all E (world st) sender email_data 0 rcpts = (m, ds0, w')"
    by (cases "dispatch_all E (world st) sender email_data 0 rcpts")
  with assms have e: "ok = (m > 0)" "ds = ds0" "world st' = w'"
    by (auto simp: process_email_def Let_def)
  note t = dispatch_all_trace[OF d] dispatch_all_attempts[OF d]
  have c: "ok \<longleftrightarrow> (\<exists>d\<in>set ds. fst (snd d))"
    using t e by (auto simp: filter_empty_conv)
  have "\<not> ok \<longleftrightarrow> (\<forall>d\<in>set ds. \<forall>a\<in>set (snd (snd d)). \<not> snd a)"
    using c t(2) e(2) by blast
  with c t e show ?thesis by simp
qed

theorem process_email_at_least_one_witness:
  "process_email demo_env demo_state ''a@s'' [''bob@t'', ''nobody''] ''hi'' ''c'' =
     (True,
      [(''bob@t'', True, [(''h1'', False), (''h2'', True)]), (''nobody'', False, [])],
      demo_state\<lparr>world := 3,
        results := [\<lparr> timestamp = ''2025-01-01T00:00:00'', test_type = ''smtp_relay'',
                      scenario = ''server_relay'', target = ''bob@t, nobody'',
                      from_email = ''a@s'', success = True,
                      details = \<lparr> client_id = ''c'', total_targets = 2,
                                  successful_deliveries = 1, email_size = 2 \<rparr> \<rparr>]\<rparr>)
   \<and> (True \<longleftrightarrow> (\<exists>d\<in>set [(''bob@t'', True, [(''h1'', False), (''h2'', True)]), (''nobody'', False, [])].
                  fst (snd d)))"
proof -
  have r1: "relay_email demo_env 0 ''a@s'' ''bob@t'' ''hi'' = (True, [(''h1'', False), (''h2'', True)], 3)"
    by (simp add: relay_email_def relay_body_def rcpt_domain_def get_mx_servers_def
          demo_env_def rstrip_dot_def)
  have r2: "relay_email demo_env 3 ''a@s'' ''nobody'' ''hi'' = (False, [], 3)"
    by (simp add: relay_email_def relay_body_def rcpt_domain_def)
  have h: "process_email demo_env demo_state ''a@s'' [''bob@t'', ''nobody''] ''hi'' ''c'' =
     (True,
      [(''bob@t'', True, [(''h1'', False), (''h2'', True)]), (''nobody'', False, [])],
      demo_state\<lparr>world := 3,
        results := [\<lparr> timestamp = ''2025-01-01T00:00:00'', test_type = ''smtp_relay'',
                      scenario = ''server_relay'', target = ''bob@t, nobody'',
                      from_email = ''a@s'', success = True,
                      details = \<lparr> client_id = ''c'', total_targets = 2,
                                  successful_deliveries = 1, email_size = 2 \<rparr> \<rparr>]\<rparr>)"
    by (simp add: process_email_def demo_state_def r1 r2) (simp add: demo_env_def)
  show ?thesis
    using h process_email_at_least_one [OF h] by simp
qed

subsection \<open>The session: one pass of the command loop\<close>

lemma startswithD: "startswith s p \<Longrightarrow> \<exists>t. s = p @ t"
  unfolding startswith_def by (metis append_take_drop_id)

lemma process_email_no_rcpt:
  "process_email E st sender [] email_data cid =
     (False, [],
      st\<lparr>results := results st @
           [\<lparr> timestamp = now_iso E (world st), test_type = ''smtp_relay'',
              scenario = ''server_relay'', target = [], from_email = sender, success = False,
              details = \<lparr> client_id = cid, total_targets = 0, successful_deliveries = 0,
                          email_size = length email_data \<rparr> \<rparr>]\<rparr>)"
  by (simp add: process_email_def)

lemma process_email_sent:
  "process_email E st sender rcpts email_data cid = (ok, ds, st') \<Longrightarrow> sent st' = sent st"
  by (auto simp: process_email_def Let_def split: prod.splits)

lemma rset_step:
  assumes "startswith (upper (strip raw)) ''RSET''"
  shows "session_step E addr0 cid raw rest st =
           (send (''250 OK'' @ crlf) (st\<lparr>mail_from := [], rcpt_to := []\<rparr>), rest, Continue)"
proof -
  from startswithD[OF assms] obtain t where c: "upper (strip raw) = ''RSET'' @ t" by blast
  then have ne: "strip raw \<noteq> []" by (auto simp: upper_def)
  show ?thesis
    using ne by (simp add: session_step_def handle_command_def Let_def c startswith_def)
qed

lemma data_step:
  assumes "upper (strip raw) = ''DATA''"
  shows "case recv_body [] rest of
           None \<Rightarrow> session_step E addr0 cid raw rest st =
                    (send (''354 End data with <CR><LF>.<CR><LF>'' @ crlf) st, [], Hangs)
         | Some (email_data, rest') \<Rightarrow>
             (\<exists>st' reply. session_step E addr0 cid raw rest st = (st', rest', Continue)
                \<and> sent st' = sent st @ [''354 End data with <CR><LF>.<CR><LF>'' @ crlf, reply]
                \<and> (reply = ''250 OK Message queued for delivery'' @ crlf
                     \<or> reply = ''550 Message delivery failed'' @ crlf))"
proof (cases "recv_body [] rest")
  case None
  from assms have ne: "strip raw \<noteq> []" by (auto simp: upper_def)
  with None assms show ?thesis
    by (simp add: session_step_def handle_command_def Let_def startswith_def)
next
  case (Some a)
  obtain email_data rest' where a: "a = (email_data, rest')" by (cases a)
  let ?st1 = "send (''354 End data with <CR><LF>.<CR><LF>'' @ crlf) st"
  obtain ok ds st2 where p:
    "process_email E ?st1 (mail_from ?st1) (rcpt_to ?st1)
        (take (length email_data - 5) email_data) cid = (ok, ds, st2)"
    by (cases "process_email E ?st1 (mail_from ?st1) (rcpt_to ?st1)
        (take (length email_data - 5) email_data) cid")
  from process_email_sent[OF p] have s: "sent st2 = sent st @ [''354 End data with <CR><LF>.<CR><LF>'' @ crlf]"
    by (simp add: send_def)
  from assms have ne: "strip raw \<noteq> []" by (auto simp: upper_def)
  show ?thesis
    using Some a p s ne assms
    by (simp add: session_step_def handle_command_def Let_def startswith_def) (simp add: send_def)
qed

text \<open>
  C8. Two texts in a row whose stripped, upper-cased form begins with \<open>RSET\<close>: after
  each of them the envelope is empty and the reply is \<open>250 OK\<close>; the second changes
  nothing but the list of replies; and the first gives the same state and reply from an
  envelope that is already empty.
\<close>

theorem rset_idempotent:
  assumes "startswith (upper (strip raw1)) ''RSET''"
      and "startswith (upper (strip raw2)) ''RSET''"
  shows "\<exists>st1 st2.
           session_step E addr0 cid raw1 rest st = (st1, rest, Continue)
         \<and> session_step E addr0 cid raw2 rest st1 = (st2, rest, Continue)
         \<and> mail_from st1 = [] \<and> rcpt_to st1 = []
         \<and> mail_from st2 = [] \<and> rcpt_to st2 = []
         \<and> sent st1 = sent st @ [''250 OK'' @ crlf]
         \<and> sent st2 = sent st1 @ [''250 OK'' @ crlf]
         \<and> st2 = st1\<lparr>sent := sent st1 @ [''250 OK'' @ crlf]\<rparr>
         \<and> session_step E addr0 cid raw1 rest (st\<lparr>mail_from := [], rcpt_to := []\<rparr>) =
             (st1, rest, Continue)"
  by (simp add: rset_step[OF assms(1)] rset_step[OF assms(2)] send_def)

theorem rset_idempotent_witness:
  "startswith (upper (strip ''rset'')) ''RSET''
   \<and> startswith (upper (strip (''Rset now'' @ [CR, LF]))) ''RSET''
   \<and> (\<exists>st1 st2.
           session_step demo_env ''1.2.3.4'' ''c'' ''rset'' [] demo_state = (st1, [], Continue)
         \<and> session_step demo_env ''1.2.3.4'' ''c'' (''Rset now'' @ [CR, LF]) [] st1 = (st2, [], Continue)
         \<and> mail_from st1 = [] \<and> rcpt_to st1 = []
         \<and> mail_from st2 = [] \<and> rcpt_to st2 = []
         \<and> sent st2 = [''250 OK'' @ crlf, ''250 OK'' @ crlf])"
proof -
  have h1: "startswith (upper (strip ''rset'')) ''RSET''" by code_simp
  have h2: "startswith (upper (strip (''Rset now'' @ [CR, LF]))) ''RSET''" by code_simp
  have s: "sent demo_state = []" by (simp add: demo_state_def)
  from rset_idempotent [OF h1 h2, of demo_env "''1.2.3.4''" "''c''" "[]" demo_state]
  obtain st1 st2 where
    "session_step demo_env ''1.2.3.4'' ''c'' ''rset'' [] demo_state = (st1, [], Continue)"
    "session_step demo_env ''1.2.3.4'' ''c'' (''Rset now'' @ [CR, LF]) [] st1 = (st2, [], Continue)"
    "mail_from st1 = []" "rcpt_to st1 = []" "mail_from st2 = []" "rcpt_to st2 = []"
    "sent st2 = [''250 OK'' @ crlf, ''250 OK'' @ crlf]"
    using s by auto
  with h1 h2 show ?thesis by blast
qed

text \<open>
  C9. A \<open>DATA\<close> command with no recipient in the envelope, whose message arrives
  complete: \<open>_process_email\<close> makes no dispatch and returns False; the session replies
  354 and then 550, hands exactly one record to the outcome sink, with \<open>success\<close>
  False and \<open>total_targets\<close> 0, asks nothing of the network, counts the message and
  leaves the envelope empty.
\<close>

theorem data_without_recipients:
  assumes "upper (strip raw) = ''DATA''"
      and "rcpt_to st = []"
      and "recv_body [] rest = Some (email_data, rest')"
  shows "fst (process_email E st (mail_from st) (rcpt_to st) body cid) = False
       \<and> fst (snd (process_email E st (mail_from st) (rcpt_to st) body cid)) = []
       \<and> (\<exists>st' r. session_step E addr0 cid raw rest st = (st', rest', Continue)
            \<and> sent st' = sent st @ [''354 End data with <CR><LF>.<CR><LF>'' @ crlf,
                                    ''550 Message delivery failed'' @ crlf]
            \<and> results st' = results st @ [r]
            \<and> \<not> success r \<and> total_targets (details r) = 0
            \<and> world st' = world st
            \<and> emails_processed st' = emails_processed st + 1
            \<and> mail_from st' = [] \<and> rcpt_to st' = [])"
proof -
  from assms(1) have ne: "strip raw \<noteq> []" by (auto simp: upper_def)
  have p: "fst (process_email E st (mail_from st) (rcpt_to st) body cid) = False
       \<and> fst (snd (process_email E st (mail_from st) (rcpt_to st) body cid)) = []"
    using assms(2) by (simp add: process_email_no_rcpt)
  have "\<exists>st' r. session_step E addr0 cid raw rest st = (st', rest', Continue)
            \<and> sent st' = sent st @ [''354 End data with <CR><LF>.<CR><LF>'' @ crlf,
                                    ''550 Message delivery failed'' @ crlf]
            \<and> results st' = results st @ [r]
            \<and> \<not> success r \<and> total_targets (details r) = 0
            \<and> world st' = world st
            \<and> emails_processed st' = emails_processed st + 1
            \<and> mail_from st' = [] \<and> rcpt_to st' = []"
    using assms ne
    by (simp add: session_step_def handle_command_def startswith_def send_def
          process_email_no_rcpt Let_def)
  with p show ?thesis by blast
qed

theorem data_without_recipients_witness:
  "upper (strip ''data'') = ''DATA''
   \<and> rcpt_to (demo_state\<lparr>rcpt_to := []\<rparr>) = []
   \<and> recv_body [] [''hi'' @ terminator] = Some (''hi'' @ terminator, [])
   \<and> (\<exists>st' r. session_step demo_env ''1.2.3.4'' ''c'' ''data'' [''hi'' @ terminator]
                  (demo_state\<lparr>rcpt_to := []\<rparr>) = (st', [], Continue)
          \<and> sent st' = [''354 End data with <CR><LF>.<CR><LF>'' @ crlf,
                         ''550 Message delivery failed'' @ crlf]
          \<and> results st' = [r] \<and> \<not> success r \<and> total_targets (details r) = 0
          \<and> mail_from st' = [] \<and> rcpt_to st' = [])"
proof -
  have h1: "upper (strip ''data'') = ''DATA''" by code_simp
  have h2: "rcpt_to (demo_state\<lparr>rcpt_to := []\<rparr>) = []" by simp
  have h3: "recv_body [] [''hi'' @ terminator] = Some (''hi'' @ terminator, [])" by code_simp
  have s: "sent (demo_state\<lparr>rcpt_to := []\<rparr>) = []" "results (demo_state\<lparr>rcpt_to := []\<rparr>) = []"
    by (simp_all add: demo_state_def)
  from data_without_recipients [OF h1 h2 h3, of demo_env "[]" "''c''" "''1.2.3.4''"]
  obtain st' r where
    "session_step demo_env ''1.2.3.4'' ''c'' ''data'' [''hi'' @ terminator]
        (demo_state\<lparr>rcpt_to := []\<rparr>) = (st', [], Continue)"
    "sent st' = sent (demo_state\<lparr>rcpt_to := []\<rparr>) @
        [''354 End data with <CR><LF>.<CR><LF>'' @ crlf, ''550 Message delivery failed'' @ crlf]"
    "results st' = results (demo_state\<lparr>rcpt_to := []\<rparr>) @ [r]"
    "\<not> success r" "total_targets (details r) = 0" "mail_from st' = []" "rcpt_to st' = []"
    by blast
  then have "session_step demo_env ''1.2.3.4'' ''c'' ''data'' [''hi'' @ terminator]
        (demo_state\<lparr>rcpt_to := []\<rparr>) = (st', [], Continue)
     \<and> sent st' = [''354 End data with <CR><LF>.<CR><LF>'' @ crlf,
                    ''550 Message delivery failed'' @ crlf]
     \<and> results st' = [r] \<and> \<not> success r \<and> total_targets (details r) = 0
     \<and> mail_from st' = [] \<and> rcpt_to st' = []"
    by (simp only: s append_Nil simp_thms)
  with h1 h2 h3 show ?thesis by blast
qed

text \<open>
  C7, as stated, fails: \<open>DATA\<close> and \<open>QUIT\<close> are compared with \<open>==\<close>, not by
  prefix. The texts \<open>data now\<close> and \<open>quit now\<close> begin with the keyword once
  upper-cased, and both get the reply 500; the session goes on.
\<close>

theorem command_recognition_counterexample:
  "startswith (upper (strip ''data now'')) ''DATA''
   \<and> session_step demo_env ''1.2.3.4'' ''c'' ''data now'' [''hi'' @ terminator] demo_state =
       (send (''500 Command not recognized'' @ crlf) demo_state, [''hi'' @ terminator], Continue)
   \<and> startswith (upper (strip ''quit now'')) ''QUIT''
   \<and> session_step demo_env ''1.2.3.4'' ''c'' ''quit now'' [] demo_state =
       (send (''500 Command not recognized'' @ crlf) demo_state, [], Continue)"
  by code_simp

text \<open>
  C7, amended. On the stripped, upper-cased text: \<open>EHLO\<close>, \<open>HELO\<close>, \<open>MAIL FROM:\<close>,
  \<open>RCPT TO:\<close> and \<open>RSET\<close> are recognised by prefix; \<open>QUIT\<close> and \<open>DATA\<close> only
  when the text is exactly the keyword. Such a \<open>QUIT\<close> gets 221 and the loop is left.
  Such a \<open>DATA\<close> gets 354, and then 250 or 550 once the message is received
  (if it never is, 354 is the only reply and the pass never ends). A text that begins
  with \<open>DATA\<close> or \<open>QUIT\<close> and goes on gets 500.
\<close>

theorem command_recognition:
  "(startswith (upper (strip raw)) ''EHLO'' \<or> startswith (upper (strip raw)) ''HELO'' \<longrightarrow>
      session_step E addr0 cid raw rest st =
        (send (''250-EST-SMTP Hello '' @ addr0 @ crlf @ ''250 HELP'' @ crlf) st, rest, Continue))
 \<and> (startswith (upper (strip raw)) ''MAIL FROM:'' \<longrightarrow>
      session_step E addr0 cid raw rest st =
        (send (''250 OK'' @ crlf) (st\<lparr>mail_from := extract_email (strip raw)\<rparr>), rest, Continue))
 \<and> (startswith (upper (strip raw)) ''RCPT TO:'' \<longrightarrow>
      session_step E addr0 cid raw rest st =
        (send (''250 OK'' @ crlf) (st\<lparr>rcpt_to := rcpt_to st @ [extract_email (strip raw)]\<rparr>),
         rest, Continue))
 \<and> (startswith (upper (strip raw)) ''RSET'' \<longrightarrow>
      session_step E addr0 cid raw rest st =
        (send (''250 OK'' @ crlf) (st\<lparr>mail_from := [], rcpt_to := []\<rparr>), rest, Continue))
 \<and> (upper (strip raw) = ''QUIT'' \<longrightarrow>
      session_step E addr0 cid raw rest st =
        (send (''221 EST-SMTP closing connection'' @ crlf) st, rest, Break))
 \<and> (upper (strip raw) = ''DATA'' \<longrightarrow>
      (case recv_body [] rest of
         None \<Rightarrow> session_step E addr0 cid raw rest st =
                  (send (''354 End data with <CR><LF>.<CR><LF>'' @ crlf) st, [], Hangs)
       | Some (email_data, rest') \<Rightarrow>
           (\<exists>st' reply. session_step E addr0 cid raw rest st = (st', rest', Continue)
              \<and> sent st' = sent st @ [''354 End data with <CR><LF>.<CR><LF>'' @ crlf, reply]
              \<and> (reply = ''250 OK Message queued for delivery'' @ crlf
                   \<or> reply = ''550 Message delivery failed'' @ crlf))))
 \<and> ((startswith (upper (strip raw)) ''DATA'' \<and> upper (strip raw) \<noteq> ''DATA''
      \<or> startswith (upper (strip raw)) ''QUIT'' \<and> upper (strip raw) \<noteq> ''QUIT'') \<longrightarrow>
      session_step E addr0 cid raw rest st =
        (send (''500 Command not recognized'' @ crlf) st, rest, Continue))"
proof -
  let ?cmd = "upper (strip raw)"
  let ?step = "session_step E addr0 cid raw rest st"
  have pre: "strip raw \<noteq> []" if "startswith ?cmd (c # cs)" for c cs
    using startswithD[OF that] by (auto simp: upper_def)
  have 1: "?step = (send (''250-EST-SMTP Hello '' @ addr0 @ crlf @ ''250 HELP'' @ crlf) st, rest, Continue)"
    if "startswith ?cmd ''EHLO'' \<or> startswith ?cmd ''HELO''"
    using that pre by (auto simp: session_step_def handle_command_def Let_def)
  have 2: "?step = (send (''250 OK'' @ crlf) (st\<lparr>mail_from := extract_email (strip raw)\<rparr>), rest, Continue)"
    if h: "startswith ?cmd ''MAIL FROM:''"
  proof -
    from startswithD[OF h] obtain t where c: "?cmd = ''MAIL FROM:'' @ t" by blast
    show ?thesis using pre[OF h]
      by (simp add: session_step_def handle_command_def Let_def c startswith_def)
  qed
  have 3: "?step = (send (''250 OK'' @ crlf) (st\<lparr>rcpt_to := rcpt_to st @ [extract_email (strip raw)]\<rparr>), rest, Continue)"
    if h: "startswith ?cmd ''RCPT TO:''"
  proof -
    from startswithD[OF h] obtain t where c: "?cmd = ''RCPT TO:'' @ t" by blast
    show ?thesis using pre[OF h]
      by (simp add: session_step_def handle_command_def Let_def c startswith_def)
  qed
  have 4: "?step = (send (''250 OK'' @ crlf) (st\<lparr>mail_from := [], rcpt_to := []\<rparr>), rest, Continue)"
    if "startswith ?cmd ''RSET''"
    using that by (rule rset_step)
  have 5: "?step = (send (''221 EST-SMTP closing connection'' @ crlf) st, rest, Break)"
    if h: "?cmd = ''QUIT''"
  proof -
    from h have "strip raw \<noteq> []" by (auto simp: upper_def)
    then show ?thesis
      by (simp add: session_step_def handle_command_def Let_def h startswith_def)
  qed
  have 7: "?step = (send (''500 Command not recognized'' @ crlf) st, rest, Continue)"
    if h: "startswith ?cmd ''DATA'' \<and> ?cmd \<noteq> ''DATA'' \<or> startswith ?cmd ''QUIT'' \<and> ?cmd \<noteq> ''QUIT''"
  proof -
    from h consider t where "?cmd = ''DATA'' @ t" "t \<noteq> []"
      | t where "?cmd = ''QUIT'' @ t" "t \<noteq> []"
      using startswithD by fastforce
    then show ?thesis
    proof cases
      case 1
      then have "strip raw \<noteq> []" by (auto simp: upper_def)
      with 1 show ?thesis
        by (simp add: session_step_def handle_command_def Let_def startswith_def)
    next
      case 2
      then have "strip raw \<noteq> []" by (auto simp: upper_def)
      with 2 show ?thesis
        by (simp add: session_step_def handle_command_def Let_def startswith_def)
    qed
  qed
  have 6: "case recv_body [] rest of
         None \<Rightarrow> ?step = (send (''354 End data with <CR><LF>.<CR><LF>'' @ crlf) st, [], Hangs)
       | Some (email_data, rest') \<Rightarrow>
           (\<exists>st' reply. ?step = (st', rest', Continue)
              \<and> sent st' = sent st @ [''354 End data with <CR><LF>.<CR><LF>'' @ crlf, reply]
              \<and> (reply = ''250 OK Message queued for delivery'' @ crlf
                   \<or> reply = ''550 Message delivery failed'' @ crlf))"
    if "?cmd = ''DATA''"
    using that by (rule data_step)
  from 1 2 3 4 5 6 7 show ?thesis by blast
qed

theorem command_recognition_witness:
  "upper (strip (''quit'' @ [CR, LF])) = ''QUIT''
   \<and> session_step demo_env ''1.2.3.4'' ''c'' (''quit'' @ [CR, LF]) [] demo_state =
        (send (''221 EST-SMTP closing connection'' @ crlf) demo_state, [], Break)
   \<and> upper (strip ''Data'') = ''DATA''
   \<and> (\<exists>st' reply. session_step demo_env ''1.2.3.4'' ''c'' ''Data'' [''hi'' @ terminator, ''x''] demo_state
                      = (st', [''x''], Continue)
          \<and> sent st' = [''354 End data with <CR><LF>.<CR><LF>'' @ crlf, reply]
          \<and> (reply = ''250 OK Message queued for delivery'' @ crlf
               \<or> reply = ''550 Message delivery failed'' @ crlf))
   \<and> startswith (upper (strip ''mail from:<a@s>'')) ''MAIL FROM:''
   \<and> session_step demo_env ''1.2.3.4'' ''c'' ''mail from:<a@s>'' [] demo_state =
        (send (''250 OK'' @ crlf) (demo_state\<lparr>mail_from := extract_email (strip ''mail from:<a@s>'')\<rparr>),
         [], Continue)
   \<and> startswith (upper (strip ''data now'')) ''DATA'' \<and> upper (strip ''data now'') \<noteq> ''DATA''
   \<and> session_step demo_env ''1.2.3.4'' ''c'' ''data now'' [] demo_state =
        (send (''500 Command not recognized'' @ crlf) demo_state, [], Continue)"
proof -
  have q: "upper (strip (''quit'' @ [CR, LF])) = ''QUIT''" by code_simp
  have d: "upper (strip ''Data'') = ''DATA''" by code_simp
  have m: "startswith (upper (strip ''mail from:<a@s>'')) ''MAIL FROM:''" by code_simp
  have n: "startswith (upper (strip ''data now'')) ''DATA''" "upper (strip ''data now'') \<noteq> ''DATA''"
    by code_simp+
  have r: "recv_body [] [''hi'' @ terminator, ''x''] = Some (''hi'' @ terminator, [''x''])"
    by code_simp
  have s: "sent demo_state = []" by (simp add: demo_state_def)
  note c1 = command_recognition [of "''quit'' @ [CR, LF]" demo_env "''1.2.3.4''" "''c''" "[]" demo_state]
  note c2 = command_recognition [of "''Data''" demo_env "''1.2.3.4''" "''c''" "[''hi'' @ terminator, ''x'']" demo_state]
  note c3 = command_recognition [of "''mail from:<a@s>''" demo_env "''1.2.3.4''" "''c''" "[]" demo_state]
  note c4 = command_recognition [of "''data now''" demo_env "''1.2.3.4''" "''c''" "[]" demo_state]
  have a1: "session_step demo_env ''1.2.3.4'' ''c'' (''quit'' @ [CR, LF]) [] demo_state =
        (send (''221 EST-SMTP closing connection'' @ crlf) demo_state, [], Break)"
    using c1 q by blast
  have a2: "\<exists>st' reply. session_step demo_env ''1.2.3.4'' ''c'' ''Data'' [''hi'' @ terminator, ''x''] demo_state
                      = (st', [''x''], Continue)
          \<and> sent st' = [''354 End data with <CR><LF>.<CR><LF>'' @ crlf, reply]
          \<and> (reply = ''250 OK Message queued for delivery'' @ crlf
               \<or> reply = ''550 Message delivery failed'' @ crlf)"
  proof -
    from c2 d have "case recv_body [] [''hi'' @ terminator, ''x''] of
         None \<Rightarrow> session_step demo_env ''1.2.3.4'' ''c'' ''Data'' [''hi'' @ terminator, ''x''] demo_state =
                  (send (''354 End data with <CR><LF>.<CR><LF>'' @ crlf) demo_state, [], Hangs)
       | Some (email_data, rest') \<Rightarrow>
           (\<exists>st' reply. session_step demo_env ''1.2.3.4'' ''c'' ''Data'' [''hi'' @ terminator, ''x''] demo_state
                = (st', rest', Continue)
              \<and> sent st' = sent demo_state @ [''354 End data with <CR><LF>.<CR><LF>'' @ crlf, reply]
              \<and> (reply = ''250 OK Message queued for delivery'' @ crlf
                   \<or> reply = ''550 Message delivery failed'' @ crlf))"
      by blast
    then show ?thesis
      by (simp only: r s option.case prod.case append_Nil)
  qed
  have a3: "session_step demo_env ''1.2.3.4'' ''c'' ''mail from:<a@s>'' [] demo_state =
        (send (''250 OK'' @ crlf) (demo_state\<lparr>mail_from := extract_email (strip ''mail from:<a@s>'')\<rparr>),
         [], Continue)"
    using c3 m by blast
  have a4: "session_step demo_env ''1.2.3.4'' ''c'' ''data now'' [] demo_state =
        (send (''500 Command not recognized'' @ crlf) demo_state, [], Continue)"
    using c4 n by blast
  from q d m n a1 a2 a3 a4 show ?thesis by blast
qed

subsection \<open>The resolver\<close>

lemma all_less_two: "(\<forall>i<Suc (Suc 0). P i) \<longleftrightarrow> P 0 \<and> P (Suc 0)"
  by (auto simp: less_Suc_eq)

text \<open>
  What \<open>rstrip('.')\<close> returns: the text without the dots at its end, all of them and
  nothing else.
\<close>

lemma rstrip_dot_spec:
  "\<exists>dots. s = rstrip_dot s @ dots \<and> set dots \<subseteq> {CHR ''.''}
      \<and> (rstrip_dot s = [] \<or> last (rstrip_dot s) \<noteq> CHR ''.'')"
proof (induction s rule: rev_induct)
  case Nil
  then show ?case by (simp add: rstrip_dot_def)
next
  case (snoc c s)
  show ?case
  proof (cases "c = CHR ''.''")
    case True
    from snoc obtain dots where
      "s = rstrip_dot s @ dots" "set dots \<subseteq> {CHR ''.''}"
      "rstrip_dot s = [] \<or> last (rstrip_dot s) \<noteq> CHR ''.''" by blast
    moreover from True have "rstrip_dot (s @ [c]) = rstrip_dot s" by (simp add: rstrip_dot_def)
    ultimately show ?thesis using True
      by (intro exI[of _ "dots @ [c]"]) auto
  next
    case False
    then have "rstrip_dot (s @ [c]) = s @ [c]" by (simp add: rstrip_dot_def)
    with False show ?thesis by (intro exI[of _ "[]"]) simp
  qed
qed

text \<open>
  C5. When the lookup of the exchange records succeeds, \<open>_get_mx_servers\<close> returns one
  name for each record, the records taken in ascending order of preference: the same
  records, and those of equal preference in the order of the answer. Each name returned
  is the exchange name of its record without the dots at its end: the exchange name is
  the name returned followed by dots only, and the name returned does not end with a
  dot.
\<close>

theorem get_mx_servers_primary:
  assumes "dns_resolve_mx E w domain = (Some mx_records, w')"
  shows "\<exists>ordered names.
             get_mx_servers E w domain = (names, w')
           \<and> sorted (map fst ordered)
           \<and> mset ordered = mset mx_records
           \<and> (\<forall>k. filter (\<lambda>mx. fst mx = k) ordered = filter (\<lambda>mx. fst mx = k) mx_records)
           \<and> length names = length ordered
           \<and> (\<forall>i<length ordered.
                 \<exists>dots. snd (ordered ! i) = names ! i @ dots \<and> set dots \<subseteq> {CHR ''.''}
                    \<and> (names ! i = [] \<or> last (names ! i) \<noteq> CHR ''.''))"
proof (intro exI[of _ "sort_key fst mx_records"]
             exI[of _ "map (\<lambda>mx. rstrip_dot (snd mx)) (sort_key fst mx_records)"] conjI)
  show "get_mx_servers E w domain =
          (map (\<lambda>mx. rstrip_dot (snd mx)) (sort_key fst mx_records), w')"
    using assms by (simp add: get_mx_servers_def)
  show "sorted (map fst (sort_key fst mx_records))" by simp
  show "mset (sort_key fst mx_records) = mset mx_records" by simp
  show "\<forall>k. filter (\<lambda>mx. fst mx = k) (sort_key fst mx_records) =
              filter (\<lambda>mx. fst mx = k) mx_records"
    by (simp add: sort_key_stable)
  show "length (map (\<lambda>mx. rstrip_dot (snd mx)) (sort_key fst mx_records)) =
          length (sort_key fst mx_records)" by simp
  show "\<forall>i<length (sort_key fst mx_records).
          \<exists>dots. snd (sort_key fst mx_records ! i) =
                    map (\<lambda>mx. rstrip_dot (snd mx)) (sort_key fst mx_records) ! i @ dots
             \<and> set dots \<subseteq> {CHR ''.''}
             \<and> (map (\<lambda>mx. rstrip_dot (snd mx)) (sort_key fst mx_records) ! i = []
                  \<or> last (map (\<lambda>mx. rstrip_dot (snd mx)) (sort_key fst mx_records) ! i) \<noteq> CHR ''.'')"
    using rstrip_dot_spec by simp
qed

text \<open>
  The records \<open>[(10, mx1.x), (5, mx0.x)]\<close> give \<open>[mx0.x, mx1.x]\<close>: the theorem
  leaves no other list. The names of the domain \<open>t\<close> lose their dot.
\<close>

theorem get_mx_servers_primary_witness:
  "dns_resolve_mx demo_env 0 ''x'' = (Some [(10, ''mx1.x''), (5, ''mx0.x'')], 1)
   \<and> get_mx_servers demo_env 0 ''x'' = ([''mx0.x'', ''mx1.x''], 1)
   \<and> dns_resolve_mx demo_env 0 ''t'' = (Some [(1, ''h1.''), (2, ''h2.''), (3, ''h3.'')], 1)
   \<and> get_mx_servers demo_env 0 ''t'' = ([''h1'', ''h2'', ''h3''], 1)"
proof -
  have h: "dns_resolve_mx demo_env 0 ''x'' = (Some [(10, ''mx1.x''), (5, ''mx0.x'')], 1)"
    by (simp add: demo_env_def)
  from get_mx_servers_primary [OF h] obtain ordered names where o:
    "get_mx_servers demo_env 0 ''x'' = (names, 1)"
    "sorted (map fst ordered)"
    "mset ordered = mset [(10 :: nat, ''mx1.x''), (5, ''mx0.x'')]"
    "length names = length ordered"
    "\<forall>i<length ordered.
        \<exists>dots. snd (ordered ! i) = names ! i @ dots \<and> set dots \<subseteq> {CHR ''.''}
           \<and> (names ! i = [] \<or> last (names ! i) \<noteq> CHR ''.'')"
    by blast
  from o(3) have "length ordered = length [(10 :: nat, ''mx1.x''), (5, ''mx0.x'')]"
    by (rule mset_eq_length)
  then have l2: "length ordered = Suc (Suc 0)" by simp
  from o(3) have "set ordered = set [(10 :: nat, ''mx1.x''), (5, ''mx0.x'')]"
    by (rule mset_eq_setD)
  then have s2: "set ordered = {(10, ''mx1.x''), (5, ''mx0.x'')}" by simp
  from l2 obtain a b where ab: "ordered = [a, b]"
    by (auto simp: length_Suc_conv)
  from o(2) ab have le: "fst a \<le> fst b" by simp
  from s2 ab have "{a, b} = {(10, ''mx1.x''), (5, ''mx0.x'')}" by simp
  then have "a = (10, ''mx1.x'') \<and> b = (5, ''mx0.x'') \<or> a = (5, ''mx0.x'') \<and> b = (10, ''mx1.x'')"
    by (simp only: doubleton_eq_iff)
  with le ab have ord: "ordered = [(5, ''mx0.x''), (10, ''mx1.x'')]" by auto
  from o(4) ord have "length names = Suc (Suc 0)" by simp
  then obtain n0 n1 where n: "names = [n0, n1]"
    by (auto simp: length_Suc_conv)
  have stripped: "n = m" if "m = n @ dots" "set dots \<subseteq> {CHR ''.''}" "n = [] \<or> last n \<noteq> CHR ''.''"
      "m \<noteq> []" "last m \<noteq> CHR ''.''" for n m dots :: string
  proof (cases dots rule: rev_cases)
    case Nil
    with that show ?thesis by simp
  next
    case (snoc ds d)
    with that show ?thesis by auto
  qed
  from o(5) ord n have
    "\<exists>dots. ''mx0.x'' = n0 @ dots \<and> set dots \<subseteq> {CHR ''.''} \<and> (n0 = [] \<or> last n0 \<noteq> CHR ''.'')"
    "\<exists>dots. ''mx1.x'' = n1 @ dots \<and> set dots \<subseteq> {CHR ''.''} \<and> (n1 = [] \<or> last n1 \<noteq> CHR ''.'')"
    by (simp_all add: all_less_two)
  then obtain d0 d1 where f0: "''mx0.x'' = n0 @ d0" "set d0 \<subseteq> {CHR ''.''}"
      "n0 = [] \<or> last n0 \<noteq> CHR ''.''"
    and f1: "''mx1.x'' = n1 @ d1" "set d1 \<subseteq> {CHR ''.''}"
      "n1 = [] \<or> last n1 \<noteq> CHR ''.''"
    by blast
  have n0: "n0 = ''mx0.x''" by (rule stripped[OF f0]) simp_all
  have n1: "n1 = ''mx1.x''" by (rule stripped[OF f1]) simp_all
  have x: "get_mx_servers demo_env 0 ''x'' = ([''mx0.x'', ''mx1.x''], 1)"
    using o(1) n n0 n1 by simp
  have t: "dns_resolve_mx demo_env 0 ''t'' = (Some [(1, ''h1.''), (2, ''h2.''), (3, ''h3.'')], 1)"
    by (simp add: demo_env_def)
  have tv: "get_mx_servers demo_env 0 ''t'' = ([''h1'', ''h2'', ''h3''], 1)"
    by (simp add: get_mx_servers_def t rstrip_dot_def)
  from h x t tv show ?thesis by blast
qed

lemma probe_fallbacks_three:
  "probe_fallbacks E w0 working [a, b, c] =
     (case gethostbyname E w0 a of (r1, w1) \<Rightarrow>
      case gethostbyname E w1 b of (r2, w2) \<Rightarrow>
      case gethostbyname E w2 c of (r3, w3) \<Rightarrow>
        (working @ map fst (filter snd [(a, r1), (b, r2), (c, r3)]), w3))"
  by (auto split: prod.splits bool.splits)

text \<open>
  C6. When the lookup raises, \<open>_get_mx_servers\<close> probes \<open>mail.<domain>\<close>,
  \<open>mx.<domain>\<close> and \<open>mx1.<domain>\<close> in this order, each probe in the world the one
  before it left, and returns those whose probe succeeded, in the same order; when no
  probe succeeds it returns the empty list.
\<close>

theorem get_mx_servers_fallback:
  assumes "dns_resolve_mx E w domain = (None, w0)"
      and "gethostbyname E w0 (''mail.'' @ domain) = (r1, w1)"
      and "gethostbyname E w1 (''mx.'' @ domain) = (r2, w2)"
      and "gethostbyname E w2 (''mx1.'' @ domain) = (r3, w3)"
  shows "get_mx_servers E w domain =
           (map fst (filter snd [(''mail.'' @ domain, r1), (''mx.'' @ domain, r2),
                                 (''mx1.'' @ domain, r3)]), w3)
       \<and> (\<not> r1 \<and> \<not> r2 \<and> \<not> r3 \<longrightarrow> fst (get_mx_servers E w domain) = [])"
  using assms by (simp add: get_mx_servers_def fallbacks_def probe_fallbacks_three)

theorem get_mx_servers_fallback_witness:
  "dns_resolve_mx demo_env 0 ''y'' = (None, 1)
   \<and> gethostbyname demo_env 1 (''mail.'' @ ''y'') = (False, 2)
   \<and> gethostbyname demo_env 2 (''mx.'' @ ''y'') = (True, 3)
   \<and> gethostbyname demo_env 3 (''mx1.'' @ ''y'') = (False, 4)
   \<and> get_mx_servers demo_env 0 ''y'' = ([''mx.y''], 4)
   \<and> get_mx_servers demo_env 0 ''z'' = ([], 4)"
proof -
  have h0: "dns_resolve_mx demo_env 0 ''y'' = (None, 1)"
    and h1: "gethostbyname demo_env 1 (''mail.'' @ ''y'') = (False, 2)"
    and h2: "gethostbyname demo_env 2 (''mx.'' @ ''y'') = (True, 3)"
    and h3: "gethostbyname demo_env 3 (''mx1.'' @ ''y'') = (False, 4)"
    by (simp_all add: demo_env_def)
  have z0: "dns_resolve_mx demo_env 0 ''z'' = (None, 1)"
    and z1: "gethostbyname demo_env 1 (''mail.'' @ ''z'') = (False, 2)"
    and z2: "gethostbyname demo_env 2 (''mx.'' @ ''z'') = (False, 3)"
    and z3: "gethostbyname demo_env 3 (''mx1.'' @ ''z'') = (False, 4)"
    by (simp_all add: demo_env_def)
  from get_mx_servers_fallback [OF h0 h1 h2 h3]
  have a: "get_mx_servers demo_env 0 ''y'' = ([''mx.y''], 4)" by simp
  from get_mx_servers_fallback [OF z0 z1 z2 z3]
  have b: "get_mx_servers demo_env 0 ''z'' = ([], 4)" by simp
  from h0 h1 h2 h3 a b show ?thesis by blast
qed

subsection \<open>The address extractor\<close>

text \<open>
  What the search finds is the text between a \<open><\<close> and a later \<open>>\<close>: not empty,
  without a line feed, and without a \<open>>\<close> after its first character; no span of
  the text begins further left. It finds something whenever the text has such a span,
  and the span itself when no \<open><\<close> comes before it.
\<close>

lemma scan_group_sound:
  "scan_group acc s = Some g \<Longrightarrow>
     \<exists>m post. g = acc @ m \<and> s = m @ CHR ''>'' # post \<and> LF \<notin> set m \<and> CHR ''>'' \<notin> set m"
proof (induction s arbitrary: acc)
  case Nil
  then show ?case by simp
next
  case (Cons c cs)
  show ?case
  proof (cases "c = CHR ''>''")
    case True
    with Cons.prems have "g = acc" by simp
    with True show ?thesis by (intro exI[of _ "[]"] exI[of _ cs]) simp
  next
    case False
    with Cons.prems have nl: "c \<noteq> LF" and r: "scan_group (acc @ [c]) cs = Some g"
      by (auto split: if_splits)
    from Cons.IH[OF r] obtain m post where
      "g = (acc @ [c]) @ m" "cs = m @ CHR ''>'' # post" "LF \<notin> set m" "CHR ''>'' \<notin> set m"
      by blast
    with False nl show ?thesis
      by (intro exI[of _ "c # m"] exI[of _ post]) simp
  qed
qed

lemma scan_group_complete:
  "LF \<notin> set m \<Longrightarrow> \<exists>g. scan_group acc (m @ CHR ''>'' # post) = Some g"
  by (induction m arbitrary: acc) auto

lemma scan_group_exact:
  "LF \<notin> set m \<Longrightarrow> CHR ''>'' \<notin> set m \<Longrightarrow> scan_group acc (m @ CHR ''>'' # post) = Some (acc @ m)"
  by (induction m arbitrary: acc) auto

lemma match_here_sound:
  assumes "match_here s = Some g"
  shows "\<exists>post. s = g @ CHR ''>'' # post \<and> g \<noteq> [] \<and> LF \<notin> set g \<and> CHR ''>'' \<notin> set (tl g)"
proof (cases s)
  case Nil
  with assms show ?thesis by (simp add: match_here_def)
next
  case (Cons c cs)
  with assms have nl: "c \<noteq> LF" and r: "scan_group [c] cs = Some g"
    by (auto simp: match_here_def split: if_splits)
  from scan_group_sound[OF r] obtain m post where
    "g = [c] @ m" "cs = m @ CHR ''>'' # post" "LF \<notin> set m" "CHR ''>'' \<notin> set m" by blast
  with Cons nl show ?thesis by (intro exI[of _ post]) simp
qed

lemma match_here_complete:
  "body \<noteq> [] \<Longrightarrow> LF \<notin> set body \<Longrightarrow> \<exists>g. match_here (body @ CHR ''>'' # post) = Some g"
  by (cases body) (auto simp: match_here_def scan_group_complete)

lemma match_here_exact:
  "body \<noteq> [] \<Longrightarrow> LF \<notin> set body \<Longrightarrow> CHR ''>'' \<notin> set (tl body) \<Longrightarrow>
     match_here (body @ CHR ''>'' # post) = Some body"
  by (cases body) (auto simp: match_here_def scan_group_exact)

lemma re_search_sound:
  "re_search s = Some g \<Longrightarrow>
     \<exists>pre post. s = pre @ CHR ''<'' # g @ CHR ''>'' # post \<and> g \<noteq> [] \<and> LF \<notin> set g
        \<and> CHR ''>'' \<notin> set (tl g)
        \<and> (\<forall>pre2 g2 post2.
              s = pre2 @ CHR ''<'' # g2 @ CHR ''>'' # post2 \<and> g2 \<noteq> [] \<and> LF \<notin> set g2 \<longrightarrow>
                length pre \<le> length pre2)"
proof (induction s)
  case Nil
  then show ?case by simp
next
  case (Cons c cs)
  show ?case
  proof (cases "c = CHR ''<'' \<and> match_here cs \<noteq> None")
    case True
    with Cons.prems have "match_here cs = Some g" by auto
    from match_here_sound[OF this] obtain post where
      "cs = g @ CHR ''>'' # post" "g \<noteq> []" "LF \<notin> set g" "CHR ''>'' \<notin> set (tl g)" by blast
    with True show ?thesis by (rule_tac x = "[]" in exI, rule_tac x = post in exI) simp
  next
    case False
    with Cons.prems have "re_search cs = Some g" by (auto split: if_splits)
    from Cons.IH[OF this] obtain pre post where p:
      "cs = pre @ CHR ''<'' # g @ CHR ''>'' # post" "g \<noteq> []" "LF \<notin> set g" "CHR ''>'' \<notin> set (tl g)"
      "\<forall>pre2 g2 post2.
          cs = pre2 @ CHR ''<'' # g2 @ CHR ''>'' # post2 \<and> g2 \<noteq> [] \<and> LF \<notin> set g2 \<longrightarrow>
            length pre \<le> length pre2"
      by blast
    have "length (c # pre) \<le> length pre2"
      if h: "c # cs = pre2 @ CHR ''<'' # g2 @ CHR ''>'' # post2 \<and> g2 \<noteq> [] \<and> LF \<notin> set g2"
      for pre2 g2 post2
    proof (cases pre2)
      case Nil
      with h have "c = CHR ''<''" "cs = g2 @ CHR ''>'' # post2" by simp_all
      with h match_here_complete[of g2 post2] False show ?thesis by auto
    next
      case (Cons d pre3)
      with h have "cs = pre3 @ CHR ''<'' # g2 @ CHR ''>'' # post2 \<and> g2 \<noteq> [] \<and> LF \<notin> set g2"
        by simp
      with p(5) have "length pre \<le> length pre3" by blast
      with Cons show ?thesis by simp
    qed
    then have lm: "\<forall>pre2 g2 post2.
          c # cs = pre2 @ CHR ''<'' # g2 @ CHR ''>'' # post2 \<and> g2 \<noteq> [] \<and> LF \<notin> set g2 \<longrightarrow>
            length (c # pre) \<le> length pre2"
      by blast
    show ?thesis
    proof (rule exI[of _ "c # pre"], rule exI[of _ post], intro conjI)
      show "c # cs = (c # pre) @ CHR ''<'' # g @ CHR ''>'' # post" using p(1) by simp
      show "g \<noteq> []" "LF \<notin> set g" "CHR ''>'' \<notin> set (tl g)" by fact+
      show "\<forall>pre2 g2 post2.
          c # cs = pre2 @ CHR ''<'' # g2 @ CHR ''>'' # post2 \<and> g2 \<noteq> [] \<and> LF \<notin> set g2 \<longrightarrow>
            length (c # pre) \<le> length pre2" by (rule lm)
    qed
  qed
qed

text \<open>From a given \<open><\<close>, the group found is the shortest one.\<close>

lemma shortest_group:
  assumes "g @ CHR ''>'' # post = g2 @ CHR ''>'' # post2"
      and "CHR ''>'' \<notin> set (tl g)" and "g2 \<noteq> []"
  shows "length g \<le> length g2"
proof (rule ccontr)
  assume "\<not> length g \<le> length g2"
  then have lt: "length g2 < length g" by simp
  from assms(1) have "(g @ CHR ''>'' # post) ! length g2 = (g2 @ CHR ''>'' # post2) ! length g2"
    by simp
  with lt have "g ! length g2 = CHR ''>''" by (simp add: nth_append)
  moreover from assms(3) lt have "g ! length g2 = tl g ! (length g2 - 1)" "length g2 - 1 < length (tl g)"
    by (cases g; cases g2; simp)+
  ultimately have "CHR ''>'' \<in> set (tl g)" by (metis nth_mem)
  with assms(2) show False by blast
qed

lemma re_search_complete:
  "body \<noteq> [] \<Longrightarrow> LF \<notin> set body \<Longrightarrow> re_search (pre @ CHR ''<'' # body @ CHR ''>'' # post) \<noteq> None"
proof (induction pre)
  case Nil
  from match_here_complete[OF Nil, of post] show ?case by auto
next
  case (Cons c pre)
  then show ?case by (auto split: option.splits)
qed

lemma re_search_exact:
  "body \<noteq> [] \<Longrightarrow> LF \<notin> set body \<Longrightarrow> CHR ''>'' \<notin> set (tl body) \<Longrightarrow> CHR ''<'' \<notin> set pre \<Longrightarrow>
     re_search (pre @ CHR ''<'' # body @ CHR ''>'' # post) = Some body"
  by (induction pre) (auto simp: match_here_exact)

lemma no_open_no_span:
  "CHR ''<'' \<notin> set s \<Longrightarrow>
     \<nexists>pre body post. s = pre @ ''<'' @ body @ ''>'' @ post \<and> body \<noteq> [] \<and> LF \<notin> set body"
  by auto

text \<open>
  C4, as stated, fails: the \<open>.\<close> of the pattern does not match a line feed. The text
  \<open>RCPT TO:<a\nb>\<close> has one bracketed span, \<open>a\nb\<close>, and the extractor returns
  \<open>b\<close>, the last token without its bracket.
\<close>

theorem extract_email_counterexample:
  "''RCPT TO:<a'' @ [LF] @ ''b>'' = ''RCPT TO:'' @ ''<'' @ (''a'' @ [LF] @ ''b'') @ ''>'' @ []
   \<and> ''a'' @ [LF] @ ''b'' \<noteq> []
   \<and> extract_email (''RCPT TO:<a'' @ [LF] @ ''b>'') = ''b''"
  by code_simp

text \<open>
  C4, amended. If the text has a \<open><\<close>, then one or more characters with no line
  feed among them, then a \<open>>\<close>, the extractor returns the contents of such a span,
  verbatim and not empty: of the leftmost one, and of the spans that begin there the
  shortest. So it is the given span when no \<open><\<close> comes before it and no \<open>>\<close>
  lies in it after its first character. If the text has no such span, the extractor
  returns the last blank-delimited token with its leading and trailing angle brackets
  stripped when there are two tokens or more, and the empty text otherwise.
\<close>

theorem extract_email_cases:
  "(\<forall>pre body post.
       smtp_line = pre @ ''<'' @ body @ ''>'' @ post \<and> body \<noteq> [] \<and> LF \<notin> set body \<longrightarrow>
         (\<exists>pre' post'. smtp_line = pre' @ ''<'' @ extract_email smtp_line @ ''>'' @ post'
            \<and> (\<forall>pre2 g2 post2.
                  smtp_line = pre2 @ ''<'' @ g2 @ ''>'' @ post2 \<and> g2 \<noteq> [] \<and> LF \<notin> set g2 \<longrightarrow>
                    length pre' < length pre2
                  \<or> (pre2 = pre' \<and> length (extract_email smtp_line) \<le> length g2)))
       \<and> extract_email smtp_line \<noteq> [] \<and> LF \<notin> set (extract_email smtp_line)
       \<and> (CHR ''<'' \<notin> set pre \<and> CHR ''>'' \<notin> set (tl body) \<longrightarrow> extract_email smtp_line = body))
 \<and> ((\<nexists>pre body post. smtp_line = pre @ ''<'' @ body @ ''>'' @ post \<and> body \<noteq> [] \<and> LF \<notin> set body) \<longrightarrow>
       (1 < length (split_ws smtp_line) \<longrightarrow>
          extract_email smtp_line = strip_chars is_angle (last (split_ws smtp_line)))
     \<and> (length (split_ws smtp_line) \<le> 1 \<longrightarrow> extract_email smtp_line = []))"
proof (intro conjI allI impI)
  fix pre body post
  assume a: "smtp_line = pre @ ''<'' @ body @ ''>'' @ post \<and> body \<noteq> [] \<and> LF \<notin> set body"
  then have "re_search smtp_line \<noteq> None" using re_search_complete[of body pre post] by simp
  then obtain g where g: "re_search smtp_line = Some g" by blast
  then have e: "extract_email smtp_line = g" by (simp add: extract_email_def)
  from re_search_sound[OF g] obtain pre' post' where
    s: "smtp_line = pre' @ CHR ''<'' # g @ CHR ''>'' # post'" "g \<noteq> []" "LF \<notin> set g"
       "CHR ''>'' \<notin> set (tl g)"
       "\<forall>pre2 g2 post2.
          smtp_line = pre2 @ CHR ''<'' # g2 @ CHR ''>'' # post2 \<and> g2 \<noteq> [] \<and> LF \<notin> set g2 \<longrightarrow>
            length pre' \<le> length pre2"
    by blast
  have m: "length pre' < length pre2 \<or> (pre2 = pre' \<and> length g \<le> length g2)"
    if h: "smtp_line = pre2 @ ''<'' @ g2 @ ''>'' @ post2 \<and> g2 \<noteq> [] \<and> LF \<notin> set g2"
    for pre2 g2 post2
  proof (cases "length pre' < length pre2")
    case True
    then show ?thesis by simp
  next
    case False
    from h have h': "smtp_line = pre2 @ CHR ''<'' # g2 @ CHR ''>'' # post2" by simp
    with h s(5) have "length pre' \<le> length pre2" by blast
    with False have l: "length pre2 = length pre'" by simp
    from s(1) h' have q: "pre' @ CHR ''<'' # g @ CHR ''>'' # post' = pre2 @ CHR ''<'' # g2 @ CHR ''>'' # post2"
      by simp
    with l have "pre2 = pre'" "g @ CHR ''>'' # post' = g2 @ CHR ''>'' # post2" by simp_all
    with shortest_group[OF this(2) s(4)] h show ?thesis by simp
  qed
  show "\<exists>pre' post'. smtp_line = pre' @ ''<'' @ extract_email smtp_line @ ''>'' @ post'
            \<and> (\<forall>pre2 g2 post2.
                  smtp_line = pre2 @ ''<'' @ g2 @ ''>'' @ post2 \<and> g2 \<noteq> [] \<and> LF \<notin> set g2 \<longrightarrow>
                    length pre' < length pre2
                  \<or> (pre2 = pre' \<and> length (extract_email smtp_line) \<le> length g2))"
  proof (rule exI[of _ pre'], rule exI[of _ post'], intro conjI allI impI)
    show "smtp_line = pre' @ ''<'' @ extract_email smtp_line @ ''>'' @ post'"
      using s(1) e by simp
  next
    fix pre2 g2 post2
    assume "smtp_line = pre2 @ ''<'' @ g2 @ ''>'' @ post2 \<and> g2 \<noteq> [] \<and> LF \<notin> set g2"
    from m[OF this] e
    show "length pre' < length pre2 \<or> (pre2 = pre' \<and> length (extract_email smtp_line) \<le> length g2)"
      by simp
  qed
  from s e show "extract_email smtp_line \<noteq> []" "LF \<notin> set (extract_email smtp_line)" by simp_all
  show "extract_email smtp_line = body" if "CHR ''<'' \<notin> set pre \<and> CHR ''>'' \<notin> set (tl body)"
    using a that re_search_exact[of body pre post] by (simp add: extract_email_def)
next
  assume n: "\<nexists>pre body post. smtp_line = pre @ ''<'' @ body @ ''>'' @ post \<and> body \<noteq> [] \<and> LF \<notin> set body"
  have "re_search smtp_line = None"
  proof (rule ccontr)
    assume "re_search smtp_line \<noteq> None"
    then obtain g where "re_search smtp_line = Some g" by blast
    from re_search_sound[OF this] obtain pre post where
      "smtp_line = pre @ CHR ''<'' # g @ CHR ''>'' # post" "g \<noteq> []" "LF \<notin> set g" by blast
    then have "smtp_line = pre @ ''<'' @ g @ ''>'' @ post \<and> g \<noteq> [] \<and> LF \<notin> set g" by simp
    with n show False by blast
  qed
  then show "1 < length (split_ws smtp_line) \<Longrightarrow>
      extract_email smtp_line = strip_chars is_angle (last (split_ws smtp_line))"
    and "length (split_ws smtp_line) \<le> 1 \<Longrightarrow> extract_email smtp_line = []"
    by (simp_all add: extract_email_def)
qed

theorem extract_email_cases_witness:
  "''RCPT TO:<bob@example.com>'' = ''RCPT TO:'' @ ''<'' @ ''bob@example.com'' @ ''>'' @ []
   \<and> ''bob@example.com'' \<noteq> [] \<and> LF \<notin> set ''bob@example.com''
   \<and> CHR ''<'' \<notin> set ''RCPT TO:'' \<and> CHR ''>'' \<notin> set (tl ''bob@example.com'')
   \<and> extract_email ''RCPT TO:<bob@example.com>'' = ''bob@example.com''
   \<and> (\<nexists>pre body post. ''MAIL FROM: alice@example.com'' = pre @ ''<'' @ body @ ''>'' @ post
          \<and> body \<noteq> [] \<and> LF \<notin> set body)
   \<and> 1 < length (split_ws ''MAIL FROM: alice@example.com'')
   \<and> extract_email ''MAIL FROM: alice@example.com'' = ''alice@example.com''
   \<and> (\<nexists>pre body post. ''NOOP'' = pre @ ''<'' @ body @ ''>'' @ post \<and> body \<noteq> [] \<and> LF \<notin> set body)
   \<and> length (split_ws ''NOOP'') \<le> 1
   \<and> extract_email ''NOOP'' = []
   \<and> ''<'' @ [LF] @ ''<a><b>'' = (''<'' @ [LF]) @ ''<'' @ ''a'' @ ''>'' @ ''<b>''
   \<and> extract_email (''<'' @ [LF] @ ''<a><b>'') = ''a''"
proof -
  have a1: "''RCPT TO:<bob@example.com>'' = ''RCPT TO:'' @ ''<'' @ ''bob@example.com'' @ ''>'' @ []"
    by simp
  have a2: "''bob@example.com'' \<noteq> []" "LF \<notin> set ''bob@example.com''"
    "CHR ''<'' \<notin> set ''RCPT TO:''" "CHR ''>'' \<notin> set (tl ''bob@example.com'')"
    by (simp_all add: LF_def)
  have a: "extract_email ''RCPT TO:<bob@example.com>'' = ''bob@example.com''"
    using extract_email_cases [of "''RCPT TO:<bob@example.com>''"] a1 a2 by blast
  have b1: "\<nexists>pre body post. ''MAIL FROM: alice@example.com'' = pre @ ''<'' @ body @ ''>'' @ post
          \<and> body \<noteq> [] \<and> LF \<notin> set body"
    by (rule no_open_no_span) simp
  have b2: "1 < length (split_ws ''MAIL FROM: alice@example.com'')" by code_simp
  have b3: "strip_chars is_angle (last (split_ws ''MAIL FROM: alice@example.com'')) = ''alice@example.com''"
    by code_simp
  have b: "extract_email ''MAIL FROM: alice@example.com'' = ''alice@example.com''"
    using extract_email_cases [of "''MAIL FROM: alice@example.com''"] b1 b2 b3 by metis
  have c1: "\<nexists>pre body post. ''NOOP'' = pre @ ''<'' @ body @ ''>'' @ post \<and> body \<noteq> [] \<and> LF \<notin> set body"
    by (rule no_open_no_span) simp
  have c2: "length (split_ws ''NOOP'') \<le> 1" by code_simp
  have c: "extract_email ''NOOP'' = []"
    using extract_email_cases [of "''NOOP''"] c1 c2 by blast
  let ?line = "''<'' @ [LF] @ ''<a><b>''"
  have sp: "?line = (''<'' @ [LF]) @ ''<'' @ ''a'' @ ''>'' @ ''<b>'' \<and> ''a'' \<noteq> [] \<and> LF \<notin> set ''a''"
    by (simp add: LF_def)
  from extract_email_cases [of ?line] sp obtain pre' post' where
    d: "?line = pre' @ ''<'' @ extract_email ?line @ ''>'' @ post'"
    and m: "\<forall>pre2 g2 post2.
              ?line = pre2 @ ''<'' @ g2 @ ''>'' @ post2 \<and> g2 \<noteq> [] \<and> LF \<notin> set g2 \<longrightarrow>
                length pre' < length pre2 \<or> (pre2 = pre' \<and> length (extract_email ?line) \<le> length g2)"
    and ne: "extract_email ?line \<noteq> []" and nl: "LF \<notin> set (extract_email ?line)"
    by blast
  from m sp have k: "length pre' < length (''<'' @ [LF])
      \<or> (''<'' @ [LF] = pre' \<and> length (extract_email ?line) \<le> length ''a'')"
    by blast
  obtain r where r: "extract_email ?line = r" by simp
  from d ne nl k have l: "extract_email ?line = ''a''"
    unfolding r
    by (cases pre'; cases "tl pre'"; cases r; cases "tl r")
       (auto simp: LF_def Cons_eq_append_conv)
  from sp have l0: "?line = (''<'' @ [LF]) @ ''<'' @ ''a'' @ ''>'' @ ''<b>''" by blast
  from a1 a2 a b1 b2 b c1 c2 c l0 l show ?thesis by blast
qed

subsection \<open>Receiving the message\<close>

text \<open>
  The loop leaves with the accumulated text exactly when one received text ends with
  the terminator, at the first such text; the accumulated text then ends with the
  terminator, and dropping its last five characters drops the terminator.
\<close>

lemma endswith_split: "endswith s p \<Longrightarrow> take (length s - length p) s @ p = s"
  unfolding endswith_def by (metis append_take_drop_id)

lemma recv_body_chunks:
  "recv_body acc chunks = Some (e, rest') \<longleftrightarrow>
     (\<exists>pre line. chunks = pre @ line # rest' \<and> endswith line terminator
        \<and> (\<forall>c\<in>set pre. \<not> endswith c terminator) \<and> e = acc @ concat pre @ line)"
proof (induction chunks arbitrary: acc)
  case Nil
  then show ?case by simp
next
  case (Cons c cs)
  show ?case
  proof (cases "endswith c terminator")
    case True
    have "(\<exists>pre line. c # cs = pre @ line # rest' \<and> endswith line terminator
        \<and> (\<forall>c\<in>set pre. \<not> endswith c terminator) \<and> e = acc @ concat pre @ line)
      \<longleftrightarrow> (cs = rest' \<and> e = acc @ c)"
    proof
      assume "\<exists>pre line. c # cs = pre @ line # rest' \<and> endswith line terminator
        \<and> (\<forall>c\<in>set pre. \<not> endswith c terminator) \<and> e = acc @ concat pre @ line"
      then obtain pre line where p: "c # cs = pre @ line # rest'"
        "\<forall>c\<in>set pre. \<not> endswith c terminator" "e = acc @ concat pre @ line" by blast
      with True have "pre = []" by (cases pre) auto
      with p show "cs = rest' \<and> e = acc @ c" by simp
    next
      assume "cs = rest' \<and> e = acc @ c"
      with True show "\<exists>pre line. c # cs = pre @ line # rest' \<and> endswith line terminator
        \<and> (\<forall>c\<in>set pre. \<not> endswith c terminator) \<and> e = acc @ concat pre @ line"
        by (intro exI[of _ "[]"] exI[of _ c]) simp
    qed
    with True show ?thesis by auto
  next
    case False
    have "(\<exists>pre line. c # cs = pre @ line # rest' \<and> endswith line terminator
        \<and> (\<forall>c\<in>set pre. \<not> endswith c terminator) \<and> e = acc @ concat pre @ line)
      \<longleftrightarrow> (\<exists>pre line. cs = pre @ line # rest' \<and> endswith line terminator
        \<and> (\<forall>c\<in>set pre. \<not> endswith c terminator) \<and> e = (acc @ c) @ concat pre @ line)"
    proof
      assume "\<exists>pre line. c # cs = pre @ line # rest' \<and> endswith line terminator
        \<and> (\<forall>c\<in>set pre. \<not> endswith c terminator) \<and> e = acc @ concat pre @ line"
      then obtain pre line where p: "c # cs = pre @ line # rest'" "endswith line terminator"
        "\<forall>c\<in>set pre. \<not> endswith c terminator" "e = acc @ concat pre @ line" by blast
      with False obtain pre' where "pre = c # pre'" by (cases pre) auto
      with p show "\<exists>pre line. cs = pre @ line # rest' \<and> endswith line terminator
        \<and> (\<forall>c\<in>set pre. \<not> endswith c terminator) \<and> e = (acc @ c) @ concat pre @ line"
        by (intro exI[of _ pre'] exI[of _ line]) simp
    next
      assume "\<exists>pre line. cs = pre @ line # rest' \<and> endswith line terminator
        \<and> (\<forall>c\<in>set pre. \<not> endswith c terminator) \<and> e = (acc @ c) @ concat pre @ line"
      then obtain pre line where p: "cs = pre @ line # rest'" "endswith line terminator"
        "\<forall>c\<in>set pre. \<not> endswith c terminator" "e = (acc @ c) @ concat pre @ line" by blast
      with False show "\<exists>pre line. c # cs = pre @ line # rest' \<and> endswith line terminator
        \<and> (\<forall>c\<in>set pre. \<not> endswith c terminator) \<and> e = acc @ concat pre @ line"
        by (intro exI[of _ "c # pre"] exI[of _ line]) simp
    qed
    with False Cons.IH[of "acc @ c"] show ?thesis by simp
  qed
qed

lemma length_terminator: "length terminator = 5"
  by (simp add: terminator_def)

lemma recv_body_strips:
  assumes "recv_body acc chunks = Some (e, rest')"
  shows "endswith e terminator \<and> take (length e - 5) e @ terminator = e"
proof -
  from assms obtain pre line where l: "endswith line terminator" "e = acc @ concat pre @ line"
    unfolding recv_body_chunks by blast
  from endswith_split[OF l(1)] obtain b' where "line = b' @ terminator" by metis
  with l(2) have "e = (acc @ concat pre @ b') @ terminator" by simp
  then obtain b where b: "e = b @ terminator" by blast
  then show ?thesis by (simp add: endswith_def length_terminator)
qed

text \<open>
  C1 fails on the code. The test is on the text just received, not on the accumulated
  one. When the terminator arrives in two pieces, \<open>hi\r\n.\<close> and then \<open>\r\n\<close>, the
  accumulated text ends with the terminator and the loop does not leave: after the
  reply 354 the session waits for ever. The same text received in one piece completes
  the message.
\<close>

theorem recv_body_split_terminator:
  "endswith (''hi'' @ [CR, LF, CHR ''.''] @ [CR, LF]) terminator
   \<and> recv_body [] [''hi'' @ [CR, LF, CHR ''.''], [CR, LF]] = None
   \<and> session_step demo_env ''1.2.3.4'' ''c'' ''DATA'' [''hi'' @ [CR, LF, CHR ''.''], [CR, LF]] demo_state =
       (send (''354 End data with <CR><LF>.<CR><LF>'' @ crlf) demo_state, [], Hangs)
   \<and> recv_body [] [''hi'' @ [CR, LF, CHR ''.'', CR, LF]] = Some (''hi'' @ terminator, [])"
  by code_simp

end
